theory Spec2Isabelle
  imports Main "HOL-Library.AList" "HOL-Library.Sublist"
begin

section \<open>Python strings\<close>

text \<open>
  A Python \<open>str\<close> is modelled as a \<open>string\<close> whose characters are the code points below
  256.  \<open>isspace\<close> is \<open>str.isspace\<close> on those code points: tab, line feed, vertical tab,
  form feed, carriage return, the four separators 28..31, space, NEL (133) and the
  no-break space (160).
\<close>

definition isspace :: "char \<Rightarrow> bool" where
  "isspace c = (of_char c \<in> {9, 10, 11, 12, 13, 28, 29, 30, 31, 32, 133, 160 :: nat})"

definition strip :: "string \<Rightarrow> string" where
  "strip s = rev (dropWhile isspace (rev (dropWhile isspace s)))"

text \<open>\<open>s.startswith(c)\<close> for a one-character prefix.\<close>

definition startswith :: "string \<Rightarrow> char \<Rightarrow> bool" where
  "startswith s c = (case s of [] \<Rightarrow> False | x # _ \<Rightarrow> x = c)"

text \<open>\<open>s.find(c)\<close> and \<open>s.rfind(c)\<close> for a one-character needle: \<open>-1\<close> when absent.\<close>

definition find :: "string \<Rightarrow> char \<Rightarrow> int" where
  "find s c = (if c \<in> set s then int (length (takeWhile (\<lambda>x. x \<noteq> c) s)) else - 1)"

definition rfind :: "string \<Rightarrow> char \<Rightarrow> int" where
  "rfind s c =
     (if c \<in> set s then int (length s) - 1 - int (length (takeWhile (\<lambda>x. x \<noteq> c) (rev s)))
      else - 1)"

text \<open>
  Python slices \<open>s[i:j]\<close>, \<open>s[i:]\<close> and \<open>s[:j]\<close>: a negative index counts from the end,
  and every index is clamped to the string.
\<close>

definition slice_index :: "nat \<Rightarrow> int \<Rightarrow> nat" where
  "slice_index n i = (if i < 0 then nat (int n + i) else min n (nat i))"

definition slice :: "string \<Rightarrow> int \<Rightarrow> int \<Rightarrow> string" where
  "slice s i j = drop (slice_index (length s) i) (take (slice_index (length s) j) s)"

definition slice_from :: "string \<Rightarrow> int \<Rightarrow> string" where
  "slice_from s i = drop (slice_index (length s) i) s"

definition slice_to :: "string \<Rightarrow> int \<Rightarrow> string" where
  "slice_to s j = take (slice_index (length s) j) s"

text \<open>\<open>str(n)\<close> for an integer, as an f-string renders it.\<close>

function str_nat :: "nat \<Rightarrow> string" where
  "str_nat n =
     (if n < 10 then [''0123456789'' ! n]
      else str_nat (n div 10) @ [''0123456789'' ! (n mod 10)])"
  by pat_completeness auto
termination
  by (relation "measure id") auto

definition str_int :: "int \<Rightarrow> string" where
  "str_int i = (if i < 0 then CHR ''-'' # str_nat (nat (- i)) else str_nat (nat i))"


section \<open>Time, cache records and errors\<close>

text \<open>
  A \<open>datetime\<close> is the number of microseconds on the clock and a \<open>timedelta\<close> a number
  of microseconds, both integers, so that subtraction and comparison are exact as in
  Python.
\<close>

type_synonym time = int

text \<open>
  A cache record is the dict \<open>{"count": ..., "first_seen": ...}\<close>; \<open>None\<close> stands for an
  absent key (for \<open>first_seen\<close> also a stored \<open>None\<close>, which \<open>prune_once\<close> treats alike).
\<close>

record log_data =
  count :: "int option"
  first_seen :: "time option"

text \<open>Truthiness of the dict: it is falsy exactly when it has no key.\<close>

definition truthy :: "log_data \<Rightarrow> bool" where
  "truthy d = (count d \<noteq> None \<or> first_seen d \<noteq> None)"

datatype error = AttributeError | KeyError | LibraryError

text \<open>
  The timestamp returned by \<open>parse_log_entry\<close>: a \<open>datetime\<close>, or the raw text kept when
  the date-time parser rejected it.
\<close>

datatype stamp = Datetime time | RawText string

text \<open>
  \<open>dateutil.parser.parse\<close> is a library function, taken as a parameter: on a text it
  returns a \<open>datetime\<close>, raises \<open>ValueError\<close> (its \<open>ParserError\<close>), or raises something
  else (it documents \<open>OverflowError\<close>).
\<close>

datatype dt_outcome = Parses time | RaisesValueError | RaisesOther



section \<open>parser.py: \<open>parse_log_entry\<close>\<close>

definition parse_log_entry ::
  "(string \<Rightarrow> dt_outcome) \<Rightarrow> time \<Rightarrow> string \<Rightarrow> error + (stamp option \<times> string option)" where
  "parse_log_entry parse_datetime now raw =
     (let entry = strip raw in
      if entry = [] then Inr (None, None)
      else if startswith entry CHR ''['' \<and> CHR '']'' \<in> set entry then
        (let end_bracket_index = find entry CHR '']'';
             timestamp_str = slice entry 1 end_bracket_index;
             message = strip (slice_from entry (end_bracket_index + 1))
         in case parse_datetime timestamp_str of
              Parses timestamp \<Rightarrow> Inr (Some (Datetime timestamp), Some message)
            | RaisesValueError \<Rightarrow> Inr (Some (RawText timestamp_str), Some message)
            | RaisesOther \<Rightarrow> Inl LibraryError)
      else Inr (Some (Datetime now), Some entry))"

text \<open>
  The text that a line hands to the date-time parser, if it hands one: the characters
  between the opening bracket of the stripped line and its first closing bracket.  A line
  that is not of that shape never reaches the date-time parser.
\<close>

definition timestamp_text :: "string \<Rightarrow> string option" where
  "timestamp_text raw =
     (let e = strip raw in
      if startswith e CHR ''['' \<and> CHR '']'' \<in> set e
      then Some (takeWhile (\<lambda>x. x \<noteq> CHR '']'') (tl e))
      else None)"

text \<open>
  On this line the date-time parser, if called, returns or raises \<open>ValueError\<close>: it
  raises nothing that \<open>parse_log_entry\<close> does not catch.
\<close>

definition raises_only_ValueError_on :: "(string \<Rightarrow> dt_outcome) \<Rightarrow> string \<Rightarrow> bool" where
  "raises_only_ValueError_on parse_datetime raw =
     (case timestamp_text raw of None \<Rightarrow> True | Some s \<Rightarrow> parse_datetime s \<noteq> RaisesOther)"

text \<open>
  The inputs on which the message comes out empty: the stripped line opens with a bracket,
  has a closing one, and holds nothing but whitespace after the first closing bracket.
\<close>

definition blank_after_bracket :: "string \<Rightarrow> bool" where
  "blank_after_bracket e =
     (startswith e CHR ''['' \<and> CHR '']'' \<in> set e \<and>
      list_all isspace (tl (dropWhile (\<lambda>x. x \<noteq> CHR '']'') e)))"


section \<open>files.py: paths, \<open>discover_files\<close> and \<open>dump_log_to_file\<close>\<close>

text \<open>
  A resolved \<open>Path\<close> is its parent directory and its final component.  \<open>stem\<close> is
  pathlib's: the final component without its last suffix, where a dot that opens or ends
  the name starts no suffix.
\<close>

record path =
  parent :: "string list"
  name :: string

definition stem :: "path \<Rightarrow> string" where
  "stem p =
     (let i = rfind (name p) CHR ''.'' in
      if 0 < i \<and> i < int (length (name p)) - 1 then slice_to (name p) i else name p)"

text \<open>
  \<open>glob.glob\<close> and \<open>Path.resolve\<close> read the file system; both are parameters.  The loop
  keeps, in order, every resolved match whose stem does not contain \<open>-agg\<close>.
\<close>

definition discover_files ::
  "(string \<Rightarrow> string list) \<Rightarrow> (string \<Rightarrow> path) \<Rightarrow> string list \<Rightarrow> path list" where
  "discover_files glob resolve patterns =
     concat (map (\<lambda>pattern.
       filter (\<lambda>p. \<not> sublist ''-agg'' (stem p)) (map resolve (glob pattern))) patterns)"

text \<open>
  A write to the sink is the destination file and the text appended to it.  A failure of
  the append itself is caught and logged by \<open>dump_log_to_file\<close>, so it never raises.
\<close>

type_synonym sink_write = "path \<times> string"

definition destination :: "path \<Rightarrow> path" where
  "destination source_file = \<lparr>parent = parent source_file, name = stem source_file @ ''-agg.log''\<rparr>"

definition dump_log_to_file :: "path \<Rightarrow> string \<Rightarrow> string \<Rightarrow> sink_write" where
  "dump_log_to_file source_file timestamp message =
     (destination source_file, ''['' @ timestamp @ ''] '' @ message @ [CHR 0x0A])"


section \<open>The cache\<close>

text \<open>
  Both levels of the cache are Python dicts, modelled as association lists in insertion
  order: \<open>map_of\<close> is the lookup, \<open>AList.update\<close> the assignment \<open>d[k] = v\<close> (in place for
  a present key, at the end for a new one) and \<open>AList.delete\<close> the removal.  A dict has no
  key twice.
\<close>

type_synonym bucket = "(string \<times> log_data) list"
type_synonym cache_tree = "(path \<times> bucket) list"

definition wf_cache :: "cache_tree \<Rightarrow> bool" where
  "wf_cache cm = (distinct (map fst cm) \<and> list_all (\<lambda>pb. distinct (map fst (snd pb))) cm)"

text \<open>The record stored for a message of a file, if any.\<close>

definition lookup :: "cache_tree \<Rightarrow> path \<Rightarrow> string \<Rightarrow> log_data option" where
  "lookup cm p m = (case map_of cm p of None \<Rightarrow> None | Some cache \<Rightarrow> map_of cache m)"

text \<open>\<open>cache_map.setdefault(file_path, {})\<close>: the dict afterwards and the bucket returned.\<close>

definition setdefault :: "cache_tree \<Rightarrow> path \<Rightarrow> cache_tree \<times> bucket" where
  "setdefault cm p = (case map_of cm p of None \<Rightarrow> (cm @ [(p, [])], []) | Some cache \<Rightarrow> (cm, cache))"


section \<open>parser.py: \<open>process_log\<close>\<close>

text \<open>
  \<open>process_log\<close> on the bucket of the file; \<open>current_time\<close> is its reading of the clock.
  It returns the bucket as mutated and the writes made, or the exception raised (no
  mutation precedes a raise).
\<close>

definition increment :: "bucket \<Rightarrow> string \<Rightarrow> error + (bucket \<times> sink_write list)" where
  "increment cache message =
     (case map_of cache message of
        None \<Rightarrow> Inl KeyError
      | Some d \<Rightarrow>
          (case count d of
             None \<Rightarrow> Inl KeyError
           | Some c \<Rightarrow> Inr (AList.update message (d\<lparr>count := Some (c + 1)\<rparr>) cache, [])))"

definition process_log ::
  "(time \<Rightarrow> string) \<Rightarrow> bucket \<Rightarrow> path \<Rightarrow> string \<Rightarrow> time \<Rightarrow> time \<Rightarrow> error + (bucket \<times> sink_write list)"
  where
  "process_log strftime cache source_file message agg_window current_time =
     (case map_of cache message of
        None \<Rightarrow> increment cache message
      | Some log_data \<Rightarrow>
          if \<not> truthy log_data then increment cache message
          else
            (case first_seen log_data of
               None \<Rightarrow> Inl KeyError
             | Some fs \<Rightarrow>
                 if current_time - fs \<ge> agg_window then
                   (case count log_data of
                      None \<Rightarrow> Inl KeyError
                    | Some c \<Rightarrow>
                        Inr (AList.delete message cache,
                             if c \<ge> 1 then
                               [dump_log_to_file source_file (strftime current_time)
                                  (message @ '' (occured '' @ str_int c @ '' times)'')]
                             else []))
                 else increment cache message))"


section \<open>files.py: \<open>tail_file\<close>\<close>

text \<open>
  Observing a parsed entry: the part of one turn of the loop of \<open>tail_file\<close> that follows
  the call of \<open>parse_log_entry\<close>, from \<open>if message:\<close> on.  It is the cache lookup, then \<open>process_log\<close> for a message the bucket holds, or the immediate write and
  the new record for one it does not.  \<open>now\<close> is the clock as read in that branch.  An
  exception leaves the loop (the worker logs it and ends); it is returned with the cache as
  it then stands.
\<close>

definition observe ::
  "(time \<Rightarrow> string) \<Rightarrow> time \<Rightarrow> path \<Rightarrow> time \<Rightarrow> stamp option \<times> string option \<Rightarrow> cache_tree
     \<Rightarrow> (error \<times> cache_tree) + (cache_tree \<times> sink_write list)" where
  "observe strftime agg_interval file_path now entry cache_map =
     (case snd entry of
        None \<Rightarrow> Inr (cache_map, [])
      | Some message \<Rightarrow>
          if message = [] then Inr (cache_map, [])
          else
            (let (cache_map1, cache) = setdefault cache_map file_path in
             if map_of cache message \<noteq> None then
               (case process_log strftime cache file_path message agg_interval now of
                  Inl e \<Rightarrow> Inl (e, cache_map1)
                | Inr (cache', ws) \<Rightarrow> Inr (AList.update file_path cache' cache_map1, ws))
             else
               (case fst entry of
                  Some (Datetime timestamp) \<Rightarrow>
                    Inr (AList.update file_path
                           (AList.update message \<lparr>count = Some 1, first_seen = Some now\<rparr> cache)
                           cache_map1,
                         [dump_log_to_file file_path (strftime timestamp) message])
                | _ \<Rightarrow> Inl (AttributeError, cache_map1))))"

text \<open>
  One turn of the loop on a line that was read: \<open>now_parse\<close> is the clock inside
  \<open>parse_log_entry\<close>, \<open>now\<close> the later reading.
\<close>

definition tail_line ::
  "(string \<Rightarrow> dt_outcome) \<Rightarrow> (time \<Rightarrow> string) \<Rightarrow> time \<Rightarrow> path \<Rightarrow> time \<times> time \<times> string \<Rightarrow> cache_tree
     \<Rightarrow> (error \<times> cache_tree) + (cache_tree \<times> sink_write list)" where
  "tail_line parse_datetime strftime agg_interval file_path rd cache_map =
     (case rd of (now_parse, now, line) \<Rightarrow>
        (case parse_log_entry parse_datetime now_parse line of
           Inl e \<Rightarrow> Inl (e, cache_map)
         | Inr entry \<Rightarrow> observe strftime agg_interval file_path now entry cache_map))"

text \<open>
  The loop over the lines read until the stop event: the exception that ended the worker
  (if any), the cache and the writes made so far.
\<close>

fun tail_file ::
  "(string \<Rightarrow> dt_outcome) \<Rightarrow> (time \<Rightarrow> string) \<Rightarrow> time \<Rightarrow> path \<Rightarrow> (time \<times> time \<times> string) list
     \<Rightarrow> cache_tree \<Rightarrow> error option \<times> cache_tree \<times> sink_write list" where
  "tail_file parse_datetime strftime agg_interval file_path [] cache_map = (None, cache_map, [])"
| "tail_file parse_datetime strftime agg_interval file_path (rd # rds) cache_map =
     (case tail_line parse_datetime strftime agg_interval file_path rd cache_map of
        Inl (e, cache_map') \<Rightarrow> (Some e, cache_map', [])
      | Inr (cache_map', ws) \<Rightarrow>
          (case tail_file parse_datetime strftime agg_interval file_path rds cache_map' of
             (r, cache_map'', ws') \<Rightarrow> (r, cache_map'', ws @ ws')))"


section \<open>prune.py: \<open>CachePruner.prune_once\<close>\<close>

text \<open>What the sweep does, in order: it takes the lock, writes to sinks, releases the lock.\<close>

datatype event = Acquire | Release | Write sink_write

text \<open>The first loop: a record is marked when it has no \<open>first_seen\<close> or is older than the window.\<close>

definition marked :: "time \<Rightarrow> time \<Rightarrow> log_data \<Rightarrow> bool" where
  "marked dt_window now data =
     (case first_seen data of None \<Rightarrow> True | Some fs \<Rightarrow> now - fs > dt_window)"

definition collect :: "time \<Rightarrow> time \<Rightarrow> cache_tree \<Rightarrow> (path \<times> string \<times> log_data) list" where
  "collect dt_window now cm =
     concat (map (\<lambda>(p, cache).
       map (\<lambda>(msg, data). (p, msg, data)) (filter (\<lambda>(msg, data). marked dt_window now data) cache)) cm)"

text \<open>What is written for a popped value: nothing for a miss or a falsy dict.\<close>

definition report :: "(time \<Rightarrow> string) \<Rightarrow> time \<Rightarrow> path \<Rightarrow> string \<Rightarrow> log_data option \<Rightarrow> event list" where
  "report strftime now p msg removed =
     (case removed of
        None \<Rightarrow> []
      | Some r \<Rightarrow>
          if truthy r then
            (let cnt = (case count r of None \<Rightarrow> 0 | Some c \<Rightarrow> c) in
             if cnt > 1 then
               [Write (dump_log_to_file p (strftime now)
                         (msg @ '' (occurred '' @ str_int cnt @ '' times)''))]
             else [])
          else [])"

text \<open>The second loop, over \<open>to_remove\<close>: pop each marked record and report it.\<close>

fun remove_marked ::
  "(time \<Rightarrow> string) \<Rightarrow> time \<Rightarrow> (path \<times> string \<times> log_data) list \<Rightarrow> cache_tree
     \<Rightarrow> error + (cache_tree \<times> event list)" where
  "remove_marked strftime now [] cm = Inr (cm, [])"
| "remove_marked strftime now ((p, msg, data) # rest) cm =
     (case map_of cm p of
        None \<Rightarrow> Inl KeyError
      | Some cache \<Rightarrow>
          (case remove_marked strftime now rest (AList.update p (AList.delete msg cache) cm) of
             Inl e \<Rightarrow> Inl e
           | Inr (cm', evs) \<Rightarrow> Inr (cm', report strftime now p msg (map_of cache msg) @ evs)))"

text \<open>Both loops run inside \<open>with self.lock\<close>.\<close>

definition prune_once ::
  "(time \<Rightarrow> string) \<Rightarrow> time \<Rightarrow> time \<Rightarrow> cache_tree \<Rightarrow> error + (cache_tree \<times> event list)" where
  "prune_once strftime dt_window now cm =
     (case remove_marked strftime now (collect dt_window now cm) cm of
        Inl e \<Rightarrow> Inl e
      | Inr (cm', evs) \<Rightarrow> Inr (cm', Acquire # evs @ [Release]))"

text \<open>No sink write happens while the lock is held (\<open>held\<close> tells whether it is, at the start).\<close>

fun no_write_locked :: "bool \<Rightarrow> event list \<Rightarrow> bool" where
  "no_write_locked held [] = True"
| "no_write_locked held (Acquire # evs) = no_write_locked True evs"
| "no_write_locked held (Release # evs) = no_write_locked False evs"
| "no_write_locked held (Write w # evs) = (\<not> held \<and> no_write_locked held evs)"


section \<open>Example inputs\<close>

text \<open>
  A date-time parser that rejects every text with \<open>ValueError\<close> (as the library rejects
  \<open>garbled\<close>), one that raises another exception on every text (as the library raises
  \<open>OverflowError\<close> on a number too large for a year), and a monitored file.
\<close>

definition rejects_all :: "string \<Rightarrow> dt_outcome" where
  "rejects_all s = RaisesValueError"

definition overflows_all :: "string \<Rightarrow> dt_outcome" where
  "overflows_all s = RaisesOther"

definition app_log :: path where
  "app_log = \<lparr>parent = [''var'', ''log''], name = ''app.log''\<rparr>"


section \<open>Properties of the string functions\<close>

lemma dropWhile_Nil_iff: "dropWhile P xs = [] \<longleftrightarrow> list_all P xs"
  by (induction xs) auto

lemma strip_Nil_iff: "strip s = [] \<longleftrightarrow> list_all isspace s"
proof -
  let ?d = "dropWhile isspace s"
  have "strip s = [] \<longleftrightarrow> list_all isspace ?d"
    by (simp add: strip_def dropWhile_Nil_iff list_all_iff)
  also have "\<dots> \<longleftrightarrow> ?d = []"
  proof
    assume a: "list_all isspace ?d"
    show "?d = []"
    proof (rule ccontr)
      assume ne: "?d \<noteq> []"
      then have "\<not> isspace (hd ?d)" by (simp add: hd_dropWhile)
      moreover have "hd ?d \<in> set ?d" using ne by simp
      ultimately show False using a by (simp only: list_all_iff) blast
    qed
  next
    assume "?d = []"
    then show "list_all isspace ?d" by (simp only: list_all_iff list.set ball_empty)
  qed
  also have "\<dots> \<longleftrightarrow> list_all isspace s" by (rule dropWhile_Nil_iff)
  finally show ?thesis .
qed

lemma takeWhile_shorter: "c \<in> set s \<Longrightarrow> length (takeWhile (\<lambda>x. x \<noteq> c) s) < length s"
  by (induction s) auto

lemma slice_from_find:
  assumes "c \<in> set s"
  shows "slice_from s (find s c + 1) = tl (dropWhile (\<lambda>x. x \<noteq> c) s)"
proof -
  let ?n = "length (takeWhile (\<lambda>x. x \<noteq> c) s)"
  have lt: "?n < length s" using assms by (rule takeWhile_shorter)
  have "slice_from s (find s c + 1) = drop (Suc ?n) s"
    using assms lt by (simp add: slice_from_def find_def slice_index_def nat_add_distrib)
  also have "\<dots> = tl (drop ?n s)" by (simp add: drop_Suc drop_tl)
  also have "drop ?n s = dropWhile (\<lambda>x. x \<noteq> c) s" by (rule dropWhile_eq_drop [symmetric])
  finally show ?thesis .
qed


section \<open>The line parser\<close>

lemma slice_timestamp:
  assumes "startswith e CHR ''[''" and "CHR '']'' \<in> set e"
  shows "slice e 1 (find e CHR '']'') = takeWhile (\<lambda>x. x \<noteq> CHR '']'') (tl e)"
proof -
  from assms(1) obtain e' where e: "e = CHR ''['' # e'"
    by (cases e) (auto simp: startswith_def)
  let ?k = "length (takeWhile (\<lambda>x. x \<noteq> CHR '']'') e')"
  have n: "nat (1 + int ?k) = Suc ?k" by simp
  have "slice e 1 (find e CHR '']'') = take ?k e'"
    using assms(2) e takeWhile_shorter [of "CHR '']''" e]
    by (simp add: slice_def find_def slice_index_def n)
  also have "\<dots> = takeWhile (\<lambda>x. x \<noteq> CHR '']'') e'"
    by (rule takeWhile_eq_take [symmetric])
  finally show ?thesis using e by simp
qed

text \<open>
  C9 (as amended).  On every line for which the date-time parser, if the line reaches it,
  returns or raises \<open>ValueError\<close> (so on every line without a bracketed timestamp,
  whatever the library does), \<open>parse_log_entry\<close> returns a result.  The message is
  \<open>None\<close> exactly for an empty or whitespace-only line; it is the empty string exactly
  when the stripped line is a bracketed timestamp followed by nothing but whitespace; on
  every other line it is a non-empty string.
\<close>

theorem parse_log_entry_message:
  assumes "raises_only_ValueError_on parse_datetime raw"
  shows "\<exists>ts msg. parse_log_entry parse_datetime now raw = Inr (ts, msg) \<and>
           (msg = None \<longleftrightarrow> list_all isspace raw) \<and>
           (msg = Some [] \<longleftrightarrow> blank_after_bracket (strip raw)) \<and>
           (\<not> list_all isspace raw \<and> \<not> blank_after_bracket (strip raw)
              \<longrightarrow> (\<exists>m. msg = Some m \<and> m \<noteq> []))"
proof (cases "strip raw = []")
  case True
  then have "\<not> blank_after_bracket (strip raw)"
    by (simp add: blank_after_bracket_def startswith_def)
  with True show ?thesis
    by (simp add: parse_log_entry_def strip_Nil_iff [symmetric])
next
  case ne: False
  then have nb: "\<not> list_all isspace raw" by (simp add: strip_Nil_iff)
  show ?thesis
  proof (cases "startswith (strip raw) CHR ''['' \<and> CHR '']'' \<in> set (strip raw)")
    case False
    then show ?thesis using ne nb
      by (auto simp: parse_log_entry_def blank_after_bracket_def)
  next
    case True
    let ?e = "strip raw"
    let ?ts = "slice ?e 1 (find ?e CHR '']'')"
    let ?m = "strip (tl (dropWhile (\<lambda>x. x \<noteq> CHR '']'') ?e))"
    have m: "strip (slice_from ?e (find ?e CHR '']'' + 1)) = ?m"
      using True by (simp add: slice_from_find)
    have bl: "?m = [] \<longleftrightarrow> blank_after_bracket ?e"
      using True by (simp add: blank_after_bracket_def strip_Nil_iff)
    have "timestamp_text raw = Some ?ts"
      using True by (simp add: timestamp_text_def slice_timestamp)
    with assms have "parse_datetime ?ts \<noteq> RaisesOther"
      by (simp add: raises_only_ValueError_on_def)
    then show ?thesis using ne nb True m bl
      by (cases "parse_datetime ?ts") (auto simp: parse_log_entry_def Let_def)
  qed
qed

text \<open>
  The line \<open>[garbled] hello\<close> with a library that rejects its timestamp text, and the line
  \<open>hello\<close>, which has no timestamp text, with a library that raises another exception on
  every text.
\<close>

theorem parse_log_entry_message_witness:
  "raises_only_ValueError_on rejects_all ''[garbled] hello'' \<and>
   (\<exists>ts msg. parse_log_entry rejects_all 0 ''[garbled] hello'' = Inr (ts, msg) \<and>
      msg \<noteq> None \<and> msg \<noteq> Some []) \<and>
   raises_only_ValueError_on overflows_all ''hello'' \<and>
   (\<exists>ts msg. parse_log_entry overflows_all 0 ''hello'' = Inr (ts, msg) \<and>
      msg \<noteq> None \<and> msg \<noteq> Some [])"
proof -
  have h1: "raises_only_ValueError_on rejects_all ''[garbled] hello''"
    by (simp add: raises_only_ValueError_on_def timestamp_text_def rejects_all_def
        split: option.splits)
  have a1: "\<not> list_all isspace ''[garbled] hello''"
    by (simp add: isspace_def)
  have b1: "\<not> blank_after_bracket (strip ''[garbled] hello'')"
    by (simp add: blank_after_bracket_def strip_def isspace_def)
  have h2: "raises_only_ValueError_on overflows_all ''hello''"
    by (simp add: raises_only_ValueError_on_def timestamp_text_def strip_def isspace_def
        startswith_def)
  have a2: "\<not> list_all isspace ''hello''"
    by (simp add: isspace_def)
  have b2: "\<not> blank_after_bracket (strip ''hello'')"
    by (simp add: blank_after_bracket_def strip_def isspace_def startswith_def)
  from parse_log_entry_message [OF h1, of 0] a1 b1
  have c1: "\<exists>ts msg. parse_log_entry rejects_all 0 ''[garbled] hello'' = Inr (ts, msg) \<and>
      msg \<noteq> None \<and> msg \<noteq> Some []" by auto
  from parse_log_entry_message [OF h2, of 0] a2 b2
  have c2: "\<exists>ts msg. parse_log_entry overflows_all 0 ''hello'' = Inr (ts, msg) \<and>
      msg \<noteq> None \<and> msg \<noteq> Some []" by auto
  from h1 c1 h2 c2 show ?thesis by blast
qed

text \<open>
  The line \<open>[garbled]\<close> is neither empty nor whitespace, and its message is the empty
  string.
\<close>

theorem parse_log_entry_empty_message:
  "parse_log_entry rejects_all 0 ''[garbled]'' = Inr (Some (RawText ''garbled''), Some []) \<and>
   \<not> list_all isspace ''[garbled]''"
  by (simp add: parse_log_entry_def rejects_all_def strip_def isspace_def startswith_def
      find_def slice_def slice_from_def slice_index_def)


text \<open>
  When the parser does raise: exactly on a line whose timestamp text makes the date-time
  parser raise something other than \<open>ValueError\<close>, as on a bracketed number too large for
  a year.
\<close>

lemma parse_log_entry_raises_iff:
  "(\<exists>e. parse_log_entry parse_datetime now raw = Inl e) \<longleftrightarrow>
     \<not> raises_only_ValueError_on parse_datetime raw"
proof (cases "startswith (strip raw) CHR ''['' \<and> CHR '']'' \<in> set (strip raw)")
  case False
  then show ?thesis
    by (auto simp: parse_log_entry_def raises_only_ValueError_on_def timestamp_text_def
        Let_def split: if_splits)
next
  case True
  then have ne: "strip raw \<noteq> []" by auto
  let ?ts = "slice (strip raw) 1 (find (strip raw) CHR '']'')"
  have t: "timestamp_text raw = Some ?ts"
    using True by (simp add: timestamp_text_def slice_timestamp)
  show ?thesis using True ne t
    by (cases "parse_datetime ?ts")
       (auto simp: parse_log_entry_def raises_only_ValueError_on_def Let_def)
qed

lemma parse_log_entry_overflow:
  "parse_log_entry overflows_all 0 ''[1700000000000] disk error'' = Inl LibraryError"
  by (simp add: parse_log_entry_def overflows_all_def strip_def isspace_def startswith_def)


section \<open>File discovery\<close>

lemma rfind_agg_log: "rfind (s @ ''-agg.log'') CHR ''.'' = int (length s) + 4"
  by (simp add: rfind_def)

lemma stem_agg_log: "stem \<lparr>parent = d, name = s @ ''-agg.log''\<rparr> = s @ ''-agg''"
proof -
  have n: "nat (int (length s) + 4) = length s + 4" by simp
  show ?thesis
    by (simp add: stem_def rfind_agg_log slice_to_def slice_index_def n del: nat_int_add)
qed

lemma stem_destination: "stem (destination src) = stem src @ ''-agg''"
  by (simp only: destination_def stem_agg_log)

lemma discover_files_stem:
  "p \<in> set (discover_files glob resolve patterns) \<Longrightarrow> \<not> sublist ''-agg'' (stem p)"
  by (auto simp: discover_files_def)


text \<open>
  C10.  Whatever the patterns and the file system, no discovered path has a stem that
  contains \<open>-agg\<close>; the sink of a source is its sibling \<open><stem>-agg.log\<close>, whose stem
  ends in \<open>-agg\<close>, so no sink of any source is ever among the discovered paths.
\<close>

theorem discover_files_never_output:
  "(\<forall>p\<in>set (discover_files glob resolve patterns). \<not> sublist ''-agg'' (stem p)) \<and>
   destination src \<notin> set (discover_files glob resolve patterns)"
proof -
  have "sublist ''-agg'' (stem (destination src))"
    by (simp only: stem_destination sublist_append_leftI)
  then show ?thesis using discover_files_stem by blast
qed

theorem discover_files_never_output_witness:
  "\<lparr>parent = [], name = ''app.log''\<rparr>
     \<in> set (discover_files (\<lambda>pat. [''app.log'', ''app-agg.log'']) (\<lambda>f. \<lparr>parent = [], name = f\<rparr>) [''*.log'']) \<and>
   \<not> sublist ''-agg'' (stem \<lparr>parent = [], name = ''app.log''\<rparr>) \<and>
   destination \<lparr>parent = [], name = ''app.log''\<rparr> = \<lparr>parent = [], name = ''app-agg.log''\<rparr> \<and>
   destination \<lparr>parent = [], name = ''app.log''\<rparr>
     \<notin> set (discover_files (\<lambda>pat. [''app.log'', ''app-agg.log'']) (\<lambda>f. \<lparr>parent = [], name = f\<rparr>) [''*.log''])"
proof -
  have m: "\<lparr>parent = [], name = ''app.log''\<rparr>
     \<in> set (discover_files (\<lambda>pat. [''app.log'', ''app-agg.log'']) (\<lambda>f. \<lparr>parent = [], name = f\<rparr>) [''*.log''])"
    by (simp add: discover_files_def stem_def rfind_def slice_to_def slice_index_def sublist_code prefix_code)
  have d: "destination \<lparr>parent = [], name = ''app.log''\<rparr> = \<lparr>parent = [], name = ''app-agg.log''\<rparr>"
    by (simp add: destination_def stem_def rfind_def slice_to_def slice_index_def)
  from discover_files_never_output [of "\<lambda>pat. [''app.log'', ''app-agg.log'']" "\<lambda>f. \<lparr>parent = [], name = f\<rparr>" "[''*.log'']" "\<lparr>parent = [], name = ''app.log''\<rparr>"]
  show ?thesis using m d by blast
qed


section \<open>Lemmas on the observation of a message\<close>

lemma map_of_setdefault:
  "setdefault cm p = (cm1, cache) \<Longrightarrow>
     map_of cm1 p = Some cache \<and> (\<forall>q m. lookup cm1 q m = lookup cm q m) \<and>
     (\<forall>m. map_of cache m = lookup cm p m)"
  by (auto simp: setdefault_def lookup_def map_add_def split: option.splits if_splits)

lemma lookup_update:
  "lookup (AList.update p cache cm) q m = (if q = p then map_of cache m else lookup cm q m)"
  by (simp add: lookup_def update_conv')

lemma observe_skip:
  "observe strftime w p now (ts, None) cm = Inr (cm, []) \<and>
   observe strftime w p now (ts, Some []) cm = Inr (cm, [])"
  by (simp add: observe_def)

lemma observe_novel:
  assumes "message \<noteq> []" and "lookup cm p message = None"
  shows "\<exists>cm'. observe strftime w p now (Some (Datetime t), Some message) cm =
            Inr (cm', [dump_log_to_file p (strftime t) message]) \<and>
          (\<forall>q m. lookup cm' q m =
             (if q = p \<and> m = message then Some \<lparr>count = Some 1, first_seen = Some now\<rparr>
              else lookup cm q m))"
proof -
  obtain cm1 cache where sd: "setdefault cm p = (cm1, cache)" by (cases "setdefault cm p")
  note f = map_of_setdefault [OF sd]
  from f assms have absent: "map_of cache message = None" by simp
  show ?thesis using assms sd absent f
    by (simp add: observe_def lookup_update update_conv')
qed

lemma observe_text_stamp:
  assumes "message \<noteq> []" and "lookup cm p message = None"
  shows "\<exists>cm'. observe strftime w p now (Some (RawText s), Some message) cm = Inl (AttributeError, cm') \<and>
           (\<forall>q m. lookup cm' q m = lookup cm q m)"
proof -
  obtain cm1 cache where sd: "setdefault cm p = (cm1, cache)" by (cases "setdefault cm p")
  note f = map_of_setdefault [OF sd]
  from f assms have absent: "map_of cache message = None" by simp
  show ?thesis using assms sd absent f
    by (simp add: observe_def)
qed

lemma observe_young:
  assumes "message \<noteq> []" and "lookup cm p message = Some d"
    and "count d = Some c" and "first_seen d = Some fs" and "now - fs < w"
  shows "\<exists>cm'. observe strftime w p now (ts, Some message) cm = Inr (cm', []) \<and>
          (\<forall>q m. lookup cm' q m =
             (if q = p \<and> m = message then Some (d\<lparr>count := Some (c + 1)\<rparr>)
              else lookup cm q m))"
proof -
  obtain cm1 cache where sd: "setdefault cm p = (cm1, cache)" by (cases "setdefault cm p")
  note f = map_of_setdefault [OF sd]
  from f assms have present: "map_of cache message = Some d" by simp
  have pl: "process_log strftime cache p message w now =
      Inr (AList.update message (d\<lparr>count := Some (c + 1)\<rparr>) cache, [])"
    using assms present by (simp add: process_log_def increment_def truthy_def)
  show ?thesis using assms sd present f pl
    by (simp add: observe_def lookup_update update_conv')
qed

lemma observe_expired:
  assumes "message \<noteq> []" and "lookup cm p message = Some d"
    and "count d = Some c" and "first_seen d = Some fs" and "now - fs \<ge> w"
  shows "\<exists>cm'. observe strftime w p now (ts, Some message) cm =
            Inr (cm', if c \<ge> 1 then [dump_log_to_file p (strftime now)
                         (message @ '' (occured '' @ str_int c @ '' times)'')] else []) \<and>
          (\<forall>q m. lookup cm' q m = (if q = p \<and> m = message then None else lookup cm q m))"
proof -
  obtain cm1 cache where sd: "setdefault cm p = (cm1, cache)" by (cases "setdefault cm p")
  note f = map_of_setdefault [OF sd]
  from f assms have present: "map_of cache message = Some d" by simp
  have pl: "process_log strftime cache p message w now =
      Inr (AList.delete message cache, if c \<ge> 1 then [dump_log_to_file p (strftime now)
                         (message @ '' (occured '' @ str_int c @ '' times)'')] else [])"
    using assms present by (simp add: process_log_def truthy_def)
  show ?thesis using assms sd present f pl
    by (simp add: observe_def lookup_update delete_conv')
qed


text \<open>
  Repeated readings of one message, all inside the window of its record: the loop writes
  nothing and the count grows by the number of readings.
\<close>

lemma tail_line_young:
  assumes "m \<noteq> []" and "lookup cm p m = Some d"
    and "count d = Some c" and "first_seen d = Some fs"
    and "parse_log_entry pd now_parse line = Inr (ts, Some m)" and "now - fs < w"
  shows "\<exists>cm'. tail_line pd strftime w p (now_parse, now, line) cm = Inr (cm', []) \<and>
          (\<forall>q m'. lookup cm' q m' =
             (if q = p \<and> m' = m then Some (d\<lparr>count := Some (c + 1)\<rparr>) else lookup cm q m'))"
  using observe_young [OF assms(1-4) assms(6), of strftime ts] assms(5)
  by (simp add: tail_line_def)

lemma tail_file_counts_repeats:
  assumes "m \<noteq> []" and "lookup cm p m = Some d"
    and "count d = Some c" and "first_seen d = Some fs"
    and "\<forall>rd\<in>set rds. (\<exists>ts. parse_log_entry pd (fst rd) (snd (snd rd)) = Inr (ts, Some m)) \<and>
           fst (snd rd) - fs < w"
  shows "\<exists>cm'. tail_file pd strftime w p rds cm = (None, cm', []) \<and>
          (\<forall>q m'. lookup cm' q m' =
             (if q = p \<and> m' = m then Some (d\<lparr>count := Some (c + int (length rds))\<rparr>)
              else lookup cm q m'))"
  using assms
proof (induction rds arbitrary: cm d c)
  case Nil
  then show ?case by simp
next
  case (Cons rd rds)
  obtain np n l where rd: "rd = (np, n, l)" by (cases rd)
  from Cons.prems(5) rd obtain ts where
    ps: "parse_log_entry pd np l = Inr (ts, Some m)" and yg: "n - fs < w" by auto
  from tail_line_young [OF Cons.prems(1-4) ps yg, of strftime] obtain cm1 where
    s1: "tail_line pd strftime w p (np, n, l) cm = Inr (cm1, [])" and
    l1: "\<forall>q m'. lookup cm1 q m' =
           (if q = p \<and> m' = m then Some (d\<lparr>count := Some (c + 1)\<rparr>) else lookup cm q m')"
    by blast
  let ?d1 = "d\<lparr>count := Some (c + 1)\<rparr>"
  have a: "lookup cm1 p m = Some ?d1" using l1 by simp
  have b: "count ?d1 = Some (c + 1)" by simp
  have c: "first_seen ?d1 = Some fs" using Cons.prems(4) by simp
  have r: "\<forall>rd\<in>set rds. (\<exists>ts. parse_log_entry pd (fst rd) (snd (snd rd)) = Inr (ts, Some m)) \<and>
           fst (snd rd) - fs < w" using Cons.prems(5) by simp
  from Cons.IH [OF Cons.prems(1) a b c r] obtain cm' where
    s2: "tail_file pd strftime w p rds cm1 = (None, cm', [])" and
    l2: "\<forall>q m'. lookup cm' q m' =
             (if q = p \<and> m' = m then Some (?d1\<lparr>count := Some (c + 1 + int (length rds))\<rparr>)
              else lookup cm1 q m')" by blast
  have "tail_file pd strftime w p (rd # rds) cm = (None, cm', [])"
    using rd s1 s2 by simp
  moreover have "\<forall>q m'. lookup cm' q m' =
             (if q = p \<and> m' = m then Some (d\<lparr>count := Some (c + int (length (rd # rds)))\<rparr>)
              else lookup cm q m')"
    using l1 l2 by (simp add: add.assoc add.commute)
  ultimately show ?case by blast
qed



section \<open>Lemmas on the sweep\<close>

lemma report_cases:
  "report strftime now p msg removed = [] \<or>
   (\<exists>w. report strftime now p msg removed = [Write w])"
  by (simp add: report_def Let_def split: option.splits)

lemma remove_marked_ok:
  assumes "\<forall>x\<in>set rs. map_of cm (fst x) \<noteq> None"
  shows "\<exists>cm' ws. remove_marked strftime now rs cm = Inr (cm', map Write ws) \<and>
           (\<forall>q m. lookup cm' q m =
              (if (q, m) \<in> (\<lambda>x. (fst x, fst (snd x))) ` set rs then None else lookup cm q m))"
  using assms
proof (induction rs arbitrary: cm)
  case Nil
  show ?case by simp
next
  case (Cons x rs)
  obtain p msg data where x: "x = (p, msg, data)" by (cases x)
  from Cons.prems x obtain cache where c: "map_of cm p = Some cache" by auto
  let ?cm1 = "AList.update p (AList.delete msg cache) cm"
  have "\<forall>y\<in>set rs. map_of ?cm1 (fst y) \<noteq> None"
    using Cons.prems by (simp add: update_conv')
  from Cons.IH [OF this] obtain cm' ws where
    r: "remove_marked strftime now rs ?cm1 = Inr (cm', map Write ws)" and
    l: "\<forall>q m. lookup cm' q m =
          (if (q, m) \<in> (\<lambda>x. (fst x, fst (snd x))) ` set rs then None else lookup ?cm1 q m)"
    by blast
  have l1: "\<And>q m. lookup ?cm1 q m = (if q = p \<and> m = msg then None else lookup cm q m)"
    using c by (simp add: lookup_update delete_conv') (simp add: lookup_def)
  from report_cases [of strftime now p msg "map_of cache msg"]
  obtain ws0 where w0: "report strftime now p msg (map_of cache msg) = map Write ws0"
    by (metis list.simps(8) list.simps(9))
  have "remove_marked strftime now (x # rs) cm = Inr (cm', map Write (ws0 @ ws))"
    using x c r w0 by simp
  moreover have "\<forall>q m. lookup cm' q m =
      (if (q, m) \<in> (\<lambda>x. (fst x, fst (snd x))) ` set (x # rs) then None else lookup cm q m)"
    using l l1 x by auto
  ultimately show ?case by blast
qed

lemma remove_marked_exact:
  assumes "distinct (map (\<lambda>x. (fst x, fst (snd x))) rs)"
    and "\<forall>x\<in>set rs. lookup cm (fst x) (fst (snd x)) = Some (snd (snd x))"
    and "remove_marked strftime now rs cm = Inr (cm', evs)"
  shows "evs = concat (map (\<lambda>(p, m, d). report strftime now p m (Some d)) rs)"
  using assms
proof (induction rs arbitrary: cm evs)
  case Nil
  then show ?case by simp
next
  case (Cons x rs)
  obtain p msg data where x: "x = (p, msg, data)" by (cases x)
  from Cons.prems(2) x have lk: "lookup cm p msg = Some data" by simp
  then obtain cache where c: "map_of cm p = Some cache" and d: "map_of cache msg = Some data"
    by (auto simp: lookup_def split: option.splits)
  let ?cm1 = "AList.update p (AList.delete msg cache) cm"
  from Cons.prems(3) x c obtain evs1 where
    r: "remove_marked strftime now rs ?cm1 = Inr (cm', evs1)" and
    e: "evs = report strftime now p msg (map_of cache msg) @ evs1"
    by (auto split: sum.splits)
  have l1: "\<And>q m. lookup ?cm1 q m = (if q = p \<and> m = msg then None else lookup cm q m)"
    using c by (simp add: lookup_update delete_conv') (simp add: lookup_def)
  have "\<forall>y\<in>set rs. lookup ?cm1 (fst y) (fst (snd y)) = Some (snd (snd y))"
  proof
    fix y assume y: "y \<in> set rs"
    with Cons.prems(1) x have "(fst y, fst (snd y)) \<noteq> (p, msg)" by (auto simp: image_iff)
    with Cons.prems(2) y show "lookup ?cm1 (fst y) (fst (snd y)) = Some (snd (snd y))"
      by (simp add: l1)
  qed
  moreover from Cons.prems(1) have "distinct (map (\<lambda>x. (fst x, fst (snd x))) rs)" by simp
  ultimately have "evs1 = concat (map (\<lambda>(p, m, d). report strftime now p m (Some d)) rs)"
    using r Cons.IH by blast
  then show ?case using e d x by simp
qed

lemma collect_Cons:
  "collect w now ((p, cache) # cm) =
     map (\<lambda>(msg, data). (p, msg, data)) (filter (\<lambda>(msg, data). marked w now data) cache)
     @ collect w now cm"
  by (simp add: collect_def)

lemma set_collect:
  "set (collect w now cm) =
     {(p, m, d). \<exists>cache. (p, cache) \<in> set cm \<and> (m, d) \<in> set cache \<and> marked w now d}"
  by (induction cm) (auto simp: collect_Cons, auto simp: collect_def)

lemma collect_path: "x \<in> set (collect w now cm) \<Longrightarrow> map_of cm (fst x) \<noteq> None"
  by (auto simp: set_collect map_of_eq_None_iff image_iff) force

lemma collect_complete:
  assumes "lookup cm p m = Some d" and "marked w now d"
  shows "(p, m, d) \<in> set (collect w now cm)"
proof -
  from assms(1) obtain cache where "map_of cm p = Some cache" "map_of cache m = Some d"
    by (auto simp: lookup_def split: option.splits)
  then have "(p, cache) \<in> set cm" "(m, d) \<in> set cache" by (auto dest: map_of_SomeD)
  with assms(2) show ?thesis by (auto simp: set_collect)
qed

lemma collect_sound:
  assumes "wf_cache cm" and "(p, m, d) \<in> set (collect w now cm)"
  shows "lookup cm p m = Some d \<and> marked w now d"
proof -
  from assms(2) obtain cache where pc: "(p, cache) \<in> set cm" and md: "(m, d) \<in> set cache"
    and mk: "marked w now d" by (auto simp: set_collect)
  from assms(1) pc have "map_of cm p = Some cache" by (simp add: wf_cache_def)
  moreover from assms(1) pc have "distinct (map fst cache)"
    by (auto simp: wf_cache_def list_all_iff)
  with md have "map_of cache m = Some d" by simp
  ultimately show ?thesis using mk by (simp add: lookup_def)
qed

lemma collect_distinct:
  "wf_cache cm \<Longrightarrow> distinct (map (\<lambda>x. (fst x, fst (snd x))) (collect w now cm))"
proof (induction cm)
  case Nil
  show ?case by (simp add: collect_def)
next
  case (Cons pc cm)
  obtain p cache where pc: "pc = (p, cache)" by (cases pc)
  from Cons.prems pc have wf: "wf_cache cm" and np: "p \<notin> fst ` set cm"
    and dc: "distinct (map fst cache)" by (auto simp: wf_cache_def)
  let ?a = "map (\<lambda>(msg, data). (p, msg, data)) (filter (\<lambda>(msg, data). marked w now data) cache)"
  have "map (\<lambda>x. (fst x, fst (snd x))) ?a =
        map (\<lambda>m. (p, m)) (map fst (filter (\<lambda>(msg, data). marked w now data) cache))"
    by (simp add: case_prod_beta comp_def)
  moreover have d1: "distinct (map fst (filter (\<lambda>(msg, data). marked w now data) cache))"
    using dc by (rule distinct_map_filter)
  have "distinct (map (\<lambda>m. (p, m)) (map fst (filter (\<lambda>(msg, data). marked w now data) cache)))"
    unfolding distinct_map [of "\<lambda>m. (p, m)"] by (intro conjI d1 inj_onI) simp
  ultimately have da: "distinct (map (\<lambda>x. (fst x, fst (snd x))) ?a)"
    by (simp only:)
  have fa: "\<forall>y\<in>set ?a. fst y = p" by auto
  have fb: "\<forall>y\<in>set (collect w now cm). fst y \<noteq> p"
    using np by (auto simp: set_collect image_iff) 
  have "set (map (\<lambda>x. (fst x, fst (snd x))) ?a) \<inter>
        set (map (\<lambda>x. (fst x, fst (snd x))) (collect w now cm)) = {}"
    using fa fb by (auto simp: image_iff) 
  then show ?case using da Cons.IH [OF wf] pc
    by (simp add: collect_Cons del: set_map)
qed


section \<open>Claims on the Tailer\<close>

text \<open>
  C1 (as amended).  An observation of a non-empty message that the bucket of its file does
  not hold, with a timestamp that is a date-time, is novel: the line is written to the sink
  at once and the record \<open>{count: 1, first_seen: now}\<close> is inserted, nothing else in the
  cache changing.  An observation of a message whose record is younger than the window is a
  duplicate: nothing is written, the count of that record grows by exactly one, and
  nothing else in the cache changes.
\<close>

theorem observe_novel_then_duplicate:
  assumes "message \<noteq> []"
  shows "(lookup cm p message = None \<longrightarrow>
           (\<exists>cm'. observe strftime w p now (Some (Datetime t), Some message) cm =
                    Inr (cm', [dump_log_to_file p (strftime t) message]) \<and>
                  (\<forall>q m. lookup cm' q m =
                     (if q = p \<and> m = message
                      then Some \<lparr>count = Some 1, first_seen = Some now\<rparr>
                      else lookup cm q m)))) \<and>
         (lookup cm p message = Some d \<and> count d = Some c \<and> first_seen d = Some fs \<and>
          now - fs < w \<longrightarrow>
           (\<exists>cm'. observe strftime w p now (ts, Some message) cm = Inr (cm', []) \<and>
                  (\<forall>q m. lookup cm' q m =
                     (if q = p \<and> m = message then Some (d\<lparr>count := Some (c + 1)\<rparr>)
                      else lookup cm q m))))"
  using observe_novel [OF assms] observe_young [OF assms] by blast

text \<open>
  The message \<open>x\<close>, first seen at time 0 and seen again at time 4, with a window of 5.
\<close>

theorem observe_novel_then_duplicate_witness:
  "''x'' \<noteq> [] \<and> lookup [] app_log ''x'' = None \<and>
   observe str_int 5 app_log 0 (Some (Datetime 0), Some ''x'') [] =
     Inr ([(app_log, [(''x'', \<lparr>count = Some 1, first_seen = Some 0\<rparr>)])],
          [dump_log_to_file app_log ''0'' ''x'']) \<and>
   lookup [(app_log, [(''x'', \<lparr>count = Some 1, first_seen = Some 0\<rparr>)])] app_log ''x''
     = Some \<lparr>count = Some 1, first_seen = Some 0\<rparr> \<and>
   (4::int) - 0 < 5 \<and>
   observe str_int 5 app_log 4 (Some (Datetime 4), Some ''x'')
       [(app_log, [(''x'', \<lparr>count = Some 1, first_seen = Some 0\<rparr>)])] =
     Inr ([(app_log, [(''x'', \<lparr>count = Some 2, first_seen = Some 0\<rparr>)])], [])"
proof -
  have ne: "''x'' \<noteq> []" by simp
  have a: "lookup [] app_log ''x'' = None" by (simp add: lookup_def)
  have b: "lookup [(app_log, [(''x'', \<lparr>count = Some 1, first_seen = Some 0\<rparr>)])] app_log ''x''
     = Some \<lparr>count = Some 1, first_seen = Some 0\<rparr>" by (simp add: lookup_def)
  have e1: "observe str_int 5 app_log 0 (Some (Datetime 0), Some ''x'') [] =
     Inr ([(app_log, [(''x'', \<lparr>count = Some 1, first_seen = Some 0\<rparr>)])],
          [dump_log_to_file app_log ''0'' ''x''])"
    by (simp add: observe_def setdefault_def str_int_def)
  have e2: "observe str_int 5 app_log 4 (Some (Datetime 4), Some ''x'')
       [(app_log, [(''x'', \<lparr>count = Some 1, first_seen = Some 0\<rparr>)])] =
     Inr ([(app_log, [(''x'', \<lparr>count = Some 2, first_seen = Some 0\<rparr>)])], [])"
    by (simp add: observe_def setdefault_def process_log_def increment_def truthy_def)
  from observe_novel_then_duplicate [OF ne, of "[]" app_log str_int 5 0 0] a b e1 e2
  show ?thesis by simp
qed

text \<open>
  A record that the sweep has not yet removed, observed again when its age equals the
  window: the count is not incremented; \<open>process_log\<close> removes the record and writes.
\<close>

theorem observe_expired_not_counted:
  "observe str_int 5 app_log 5 (Some (Datetime 5), Some ''x'')
       [(app_log, [(''x'', \<lparr>count = Some 1, first_seen = Some 0\<rparr>)])] =
     Inr ([(app_log, [])], [dump_log_to_file app_log ''5'' ''x (occured 1 times)''])"
  by (simp add: observe_def setdefault_def process_log_def truthy_def str_int_def)

text \<open>
  C4 (as amended).  An observation of a message that the cache already holds writes
  nothing as long as the record is younger than the window, and only increments its count.
  Once the age of the record has reached the window, the observation itself removes the
  record, and for a count above 1 it writes one line to the sink of the file at that
  moment: aggregated reports are also written by the Tailer, not by the sweep alone.
\<close>

theorem observe_present_output:
  assumes "message \<noteq> []" and "lookup cm p message = Some d"
    and "count d = Some c" and "first_seen d = Some fs"
  shows "\<exists>cm' ws. observe strftime w p now (ts, Some message) cm = Inr (cm', ws) \<and>
           (now - fs < w \<longrightarrow>
              ws = [] \<and> lookup cm' p message = Some (d\<lparr>count := Some (c + 1)\<rparr>)) \<and>
           (now - fs \<ge> w \<longrightarrow>
              lookup cm' p message = None \<and> (c > 1 \<longrightarrow> map fst ws = [destination p]))"
proof (cases "now - fs < w")
  case True
  with observe_young [OF assms this, of strftime ts] show ?thesis by auto
next
  case False
  then have "now - fs \<ge> w" by simp
  from observe_expired [OF assms this, of strftime ts] False show ?thesis
    by (auto simp: dump_log_to_file_def)
qed

text \<open>
  A record of age 4 with a window of 5, observed on a line whose timestamp did not parse.
\<close>

theorem observe_present_output_witness:
  "''x'' \<noteq> [] \<and>
   lookup [(app_log, [(''x'', \<lparr>count = Some 3, first_seen = Some 0\<rparr>)])] app_log ''x''
     = Some \<lparr>count = Some 3, first_seen = Some 0\<rparr> \<and>
   (4::int) - 0 < 5 \<and>
   (\<exists>cm'. observe str_int 5 app_log 4 (Some (RawText ''garbled''), Some ''x'')
            [(app_log, [(''x'', \<lparr>count = Some 3, first_seen = Some 0\<rparr>)])] = Inr (cm', []) \<and>
          lookup cm' app_log ''x'' = Some \<lparr>count = Some 4, first_seen = Some 0\<rparr>)"
proof -
  have ne: "''x'' \<noteq> []" by simp
  have b: "lookup [(app_log, [(''x'', \<lparr>count = Some 3, first_seen = Some 0\<rparr>)])] app_log ''x''
     = Some \<lparr>count = Some 3, first_seen = Some 0\<rparr>" by (simp add: lookup_def)
  from observe_present_output [OF ne b, of 3 0 str_int 5 4 "Some (RawText ''garbled'')"] b
  show ?thesis by auto
qed

text \<open>
  A duplicate observation at age 9 with a window of 5 writes a line at observation time.
\<close>

theorem observe_expired_writes:
  "observe str_int 5 app_log 9 (Some (Datetime 9), Some ''x'')
       [(app_log, [(''x'', \<lparr>count = Some 3, first_seen = Some 0\<rparr>)])] =
     Inr ([(app_log, [])], [dump_log_to_file app_log ''9'' ''x (occured 3 times)''])"
  by (simp add: observe_def setdefault_def process_log_def truthy_def str_int_def)

text \<open>
  C7 (the code at the failing input).  On the line \<open>[garbled] hello\<close>, read while the
  cache is empty, the parser keeps the text \<open>garbled\<close> as the timestamp,
  and the call of \<open>strftime\<close> on that text raises \<open>AttributeError\<close>: nothing is written,
  no record is inserted, and the loop of the worker ends.
\<close>

theorem tail_line_garbled:
  "tail_line rejects_all strftime w p (now_parse, now, ''[garbled] hello'') [] =
     Inl (AttributeError, [(p, [])])"
  by (simp add: tail_line_def parse_log_entry_def rejects_all_def strip_def isspace_def
      startswith_def find_def slice_def slice_from_def slice_index_def observe_def setdefault_def)

text \<open>
  C2 (the code at the failing input).  With a window of 5, the message \<open>x\<close> is read at
  time 0 and not again inside its window; it is read once more at time 5, before any
  sweep.  \<open>process_log\<close> then writes an aggregated line for a message that occurred once,
  with the spelling \<open>occured\<close>, and the second reading is neither written nor recorded.
\<close>

theorem tail_file_single_then_late:
  "tail_file rejects_all str_int 5 app_log [(0, 0, ''x''), (5, 5, ''x'')] [] =
     (None, [(app_log, [])],
      [dump_log_to_file app_log ''0'' ''x'', dump_log_to_file app_log ''5'' ''x (occured 1 times)''])"
  by (simp add: tail_line_def parse_log_entry_def strip_def isspace_def
      startswith_def observe_def setdefault_def process_log_def truthy_def str_int_def)


section \<open>Claims on the Pruner\<close>

lemma prune_once_ok:
  "\<exists>cm' ws. prune_once strftime w now cm = Inr (cm', Acquire # map Write ws @ [Release]) \<and>
     (\<forall>q m. lookup cm' q m =
        (if (q, m) \<in> (\<lambda>x. (fst x, fst (snd x))) ` set (collect w now cm) then None
         else lookup cm q m))"
proof -
  have "\<forall>x\<in>set (collect w now cm). map_of cm (fst x) \<noteq> None"
    by (blast dest: collect_path)
  from remove_marked_ok [OF this, of strftime now] show ?thesis
    by (auto simp: prune_once_def)
qed

lemma prune_once_lookup:
  assumes "wf_cache cm" and "prune_once strftime w now cm = Inr (cm', evs)"
  shows "lookup cm' q m =
           (case lookup cm q m of None \<Rightarrow> None
            | Some d \<Rightarrow> if marked w now d then None else Some d)"
proof -
  from prune_once_ok [of strftime w now cm] assms(2)
  have l: "lookup cm' q m =
        (if (q, m) \<in> (\<lambda>x. (fst x, fst (snd x))) ` set (collect w now cm) then None
         else lookup cm q m)" by auto
  show ?thesis
  proof (cases "lookup cm q m")
    case None
    then show ?thesis using l by simp
  next
    case (Some d)
    show ?thesis
    proof (cases "marked w now d")
      case True
      with Some have "(q, m, d) \<in> set (collect w now cm)" by (simp add: collect_complete)
      then have "(q, m) \<in> (\<lambda>x. (fst x, fst (snd x))) ` set (collect w now cm)" by force
      with l Some True show ?thesis by simp
    next
      case False
      have "(q, m) \<notin> (\<lambda>x. (fst x, fst (snd x))) ` set (collect w now cm)"
      proof
        assume "(q, m) \<in> (\<lambda>x. (fst x, fst (snd x))) ` set (collect w now cm)"
        then obtain d' where "(q, m, d') \<in> set (collect w now cm)" by force
        from collect_sound [OF assms(1) this] Some False show False by simp
      qed
      with l Some False show ?thesis by simp
    qed
  qed
qed

lemma prune_once_trace:
  assumes "wf_cache cm"
  shows "\<exists>cm'. prune_once strftime w now cm =
           Inr (cm', Acquire #
                  concat (map (\<lambda>(p, m, d). report strftime now p m (Some d)) (collect w now cm))
                  @ [Release])"
proof -
  from prune_once_ok [of strftime w now cm] obtain cm' ws where
    p: "prune_once strftime w now cm = Inr (cm', Acquire # map Write ws @ [Release])" by blast
  then have r: "remove_marked strftime now (collect w now cm) cm = Inr (cm', map Write ws)"
    by (auto simp: prune_once_def split: sum.splits)
  have "\<forall>x\<in>set (collect w now cm). lookup cm (fst x) (fst (snd x)) = Some (snd (snd x))"
    using collect_sound [OF assms] by auto
  from remove_marked_exact [OF collect_distinct [OF assms] this r] p show ?thesis by simp
qed

text \<open>
  What the sweep writes for a record it removes because of its age: one line stating the
  count when the count is above 1, nothing when it is 1.
\<close>

lemma report_count:
  assumes "count d = Some k"
  shows "report strftime now p m (Some d) =
           (if k > 1 then
              [Write (dump_log_to_file p (strftime now)
                        (m @ '' (occurred '' @ str_int k @ '' times)''))]
            else [])"
  using assms by (simp add: report_def truthy_def)

lemma prune_once_reports_count:
  assumes "wf_cache cm" and "lookup cm p m = Some d"
    and "count d = Some k" and "first_seen d = Some fs" and "now - fs > w"
  shows "\<exists>cm'. prune_once strftime w now cm =
           Inr (cm', Acquire #
                  concat (map (\<lambda>(p, m, d). report strftime now p m (Some d)) (collect w now cm))
                  @ [Release]) \<and>
         lookup cm' p m = None \<and>
         (p, m, d) \<in> set (collect w now cm) \<and>
         report strftime now p m (Some d) =
           (if k > 1 then
              [Write (dump_log_to_file p (strftime now)
                        (m @ '' (occurred '' @ str_int k @ '' times)''))]
            else [])"
proof -
  from prune_once_trace [OF assms(1), of strftime w now] obtain cm' where
    p: "prune_once strftime w now cm =
           Inr (cm', Acquire #
                  concat (map (\<lambda>(p, m, d). report strftime now p m (Some d)) (collect w now cm))
                  @ [Release])" by blast
  have mk: "marked w now d" using assms(4,5) by (simp add: marked_def)
  from prune_once_lookup [OF assms(1) p, of p m] assms(2) mk
  have l: "lookup cm' p m = None" by simp
  have c: "(p, m, d) \<in> set (collect w now cm)" using assms(2) mk by (rule collect_complete)
  from p l c report_count [OF assms(3), of strftime now p m] show ?thesis by blast
qed

text \<open>
  C3 (as amended).  For a record that has a \<open>first_seen\<close>, the sweep of the Pruner
  removes it if and only if \<open>now - first_seen > window\<close>: a record whose age is below the
  window or exactly equal to it survives the sweep unchanged.  A repeated observation of
  the message by the Tailer removes the record if and only if
  \<open>now - first_seen \<ge> window\<close>.
\<close>

theorem prune_once_threshold:
  assumes "wf_cache cm" and "lookup cm p m = Some d" and "first_seen d = Some fs"
  shows "(\<exists>cm' evs. prune_once strftime w now cm = Inr (cm', evs) \<and>
            (lookup cm' p m = None \<longleftrightarrow> now - fs > w) \<and>
            (now - fs \<le> w \<longrightarrow> lookup cm' p m = Some d)) \<and>
         (m \<noteq> [] \<and> count d = Some c \<longrightarrow>
           (\<exists>cm' ws. observe strftime w p now (ts, Some m) cm = Inr (cm', ws) \<and>
              (lookup cm' p m = None \<longleftrightarrow> now - fs \<ge> w)))"
proof -
  from prune_once_ok [of strftime w now cm] obtain cm' evs where
    p: "prune_once strftime w now cm = Inr (cm', evs)" by blast
  from prune_once_lookup [OF assms(1) p, of p m] assms(2,3)
  have "(lookup cm' p m = None \<longleftrightarrow> now - fs > w) \<and> (now - fs \<le> w \<longrightarrow> lookup cm' p m = Some d)"
    by (auto simp: marked_def)
  with p have a: "\<exists>cm' evs. prune_once strftime w now cm = Inr (cm', evs) \<and>
            (lookup cm' p m = None \<longleftrightarrow> now - fs > w) \<and>
            (now - fs \<le> w \<longrightarrow> lookup cm' p m = Some d)"
    by (intro exI [of _ cm'] exI [of _ evs]) simp
  have b: "\<exists>cm' ws. observe strftime w p now (ts, Some m) cm = Inr (cm', ws) \<and>
              (lookup cm' p m = None \<longleftrightarrow> now - fs \<ge> w)" if h: "m \<noteq> []" "count d = Some c"
  proof (cases "now - fs < w")
    case True
    from observe_young [OF h(1) assms(2) h(2) assms(3) True, of strftime ts] True
    show ?thesis by auto
  next
    case False
    then have ge: "now - fs \<ge> w" by simp
    from observe_expired [OF h(1) assms(2) h(2) assms(3) ge, of strftime ts] ge
    show ?thesis by auto
  qed
  from a b show ?thesis by blast
qed

text \<open>
  A record of age 6 with a window of 5 is removed by the sweep, and by an observation.
\<close>

theorem prune_once_threshold_witness:
  "wf_cache [(app_log, [(''x'', \<lparr>count = Some 2, first_seen = Some 0\<rparr>)])] \<and>
   lookup [(app_log, [(''x'', \<lparr>count = Some 2, first_seen = Some 0\<rparr>)])] app_log ''x''
     = Some \<lparr>count = Some 2, first_seen = Some 0\<rparr> \<and>
   (\<exists>cm' evs. prune_once str_int 5 6 [(app_log, [(''x'', \<lparr>count = Some 2, first_seen = Some 0\<rparr>)])]
       = Inr (cm', evs) \<and> lookup cm' app_log ''x'' = None) \<and>
   (\<exists>cm' ws. observe str_int 5 app_log 6 (Some (Datetime 6), Some ''x'')
        [(app_log, [(''x'', \<lparr>count = Some 2, first_seen = Some 0\<rparr>)])]
       = Inr (cm', ws) \<and> lookup cm' app_log ''x'' = None)"
proof -
  have wf: "wf_cache [(app_log, [(''x'', \<lparr>count = Some 2, first_seen = Some 0\<rparr>)])]"
    by (simp add: wf_cache_def)
  have lk: "lookup [(app_log, [(''x'', \<lparr>count = Some 2, first_seen = Some 0\<rparr>)])] app_log ''x''
     = Some \<lparr>count = Some 2, first_seen = Some 0\<rparr>" by (simp add: lookup_def)
  from prune_once_threshold [OF wf lk, of 0 str_int 5 6 2 "Some (Datetime 6)"] wf lk
  show ?thesis by simp
qed

text \<open>
  A record whose age equals the window exactly survives the sweep.
\<close>

theorem prune_once_keeps_at_window:
  "prune_once str_int 5 5 [(app_log, [(''x'', \<lparr>count = Some 2, first_seen = Some 0\<rparr>)])] =
     Inr ([(app_log, [(''x'', \<lparr>count = Some 2, first_seen = Some 0\<rparr>)])], [Acquire, Release])"
  by (simp add: prune_once_def collect_def marked_def)

text \<open>
  C5 (as amended).  A record without \<open>first_seen\<close> is removed by the next sweep whatever
  the clock and the window, and it is reported like every other removed record: the sweep
  writes, in the order of the cache, what \<open>report\<close> gives for each removed record, which
  for this one is the aggregated line when its count is above 1 and nothing when its count
  is 1 or less, or missing.
\<close>

theorem prune_once_malformed:
  assumes "wf_cache cm" and "lookup cm p m = Some d" and "first_seen d = None"
  shows "\<exists>cm'. prune_once strftime w now cm =
           Inr (cm', Acquire #
                  concat (map (\<lambda>(p, m, d). report strftime now p m (Some d)) (collect w now cm))
                  @ [Release]) \<and>
         lookup cm' p m = None \<and>
         (p, m, d) \<in> set (collect w now cm) \<and>
         report strftime now p m (Some d) =
           (case count d of
              None \<Rightarrow> []
            | Some c \<Rightarrow>
                if c > 1 then
                  [Write (dump_log_to_file p (strftime now)
                            (m @ '' (occurred '' @ str_int c @ '' times)''))]
                else [])"
proof -
  from prune_once_trace [OF assms(1), of strftime w now] obtain cm' where
    p: "prune_once strftime w now cm =
           Inr (cm', Acquire #
                  concat (map (\<lambda>(p, m, d). report strftime now p m (Some d)) (collect w now cm))
                  @ [Release])" by blast
  have mk: "marked w now d" using assms(3) by (simp add: marked_def)
  from prune_once_lookup [OF assms(1) p, of p m] assms(2) mk
  have l: "lookup cm' p m = None" by simp
  have c: "(p, m, d) \<in> set (collect w now cm)" using assms(2) mk by (rule collect_complete)
  have r: "report strftime now p m (Some d) =
           (case count d of
              None \<Rightarrow> []
            | Some c \<Rightarrow>
                if c > 1 then
                  [Write (dump_log_to_file p (strftime now)
                            (m @ '' (occurred '' @ str_int c @ '' times)''))]
                else [])"
    using assms(3) by (simp add: report_def truthy_def split: option.splits)
  from p l c r show ?thesis by blast
qed

text \<open>
  A record with count 3 and no \<open>first_seen\<close>.
\<close>

theorem prune_once_malformed_witness:
  "wf_cache [(app_log, [(''x'', \<lparr>count = Some 3, first_seen = None\<rparr>)])] \<and>
   lookup [(app_log, [(''x'', \<lparr>count = Some 3, first_seen = None\<rparr>)])] app_log ''x''
     = Some \<lparr>count = Some 3, first_seen = None\<rparr> \<and>
   (\<exists>cm'. prune_once str_int 5 1 [(app_log, [(''x'', \<lparr>count = Some 3, first_seen = None\<rparr>)])] =
           Inr (cm', [Acquire, Write (dump_log_to_file app_log ''1'' ''x (occurred 3 times)''), Release])
         \<and> lookup cm' app_log ''x'' = None)"
proof -
  have wf: "wf_cache [(app_log, [(''x'', \<lparr>count = Some 3, first_seen = None\<rparr>)])]"
    by (simp add: wf_cache_def)
  have lk: "lookup [(app_log, [(''x'', \<lparr>count = Some 3, first_seen = None\<rparr>)])] app_log ''x''
     = Some \<lparr>count = Some 3, first_seen = None\<rparr>" by (simp add: lookup_def)
  have c: "collect 5 1 [(app_log, [(''x'', \<lparr>count = Some 3, first_seen = None\<rparr>)])] =
     [(app_log, ''x'', \<lparr>count = Some 3, first_seen = None\<rparr>)]"
    by (simp add: collect_def marked_def)
  have r: "report str_int 1 app_log ''x'' (Some \<lparr>count = Some 3, first_seen = None\<rparr>) =
     [Write (dump_log_to_file app_log ''1'' ''x (occurred 3 times)'')]"
    by (simp add: report_def truthy_def str_int_def)
  from prune_once_malformed [OF wf lk, of str_int 5 1] wf lk
  show ?thesis by (simp add: c r str_int_def)
qed

text \<open>
  The sweep writes an aggregated line for a record with count 3 and no \<open>first_seen\<close>.
\<close>

theorem prune_once_reports_malformed:
  "prune_once str_int 5 1 [(app_log, [(''x'', \<lparr>count = Some 3, first_seen = None\<rparr>)])] =
     Inr ([(app_log, [])],
          [Acquire, Write (dump_log_to_file app_log ''1'' ''x (occurred 3 times)''), Release])"
  by (simp add: prune_once_def collect_def marked_def report_def truthy_def str_int_def)

text \<open>
  C8 (as amended).  The sweep never raises.  It takes the lock once and releases it once,
  at its very end: the scan, the removals and every sink write of the sweep happen while the
  lock is held, so that no write is made under the lock only when the sweep writes nothing.
\<close>

theorem prune_once_writes_locked:
  "\<exists>cm' ws. prune_once strftime w now cm = Inr (cm', Acquire # map Write ws @ [Release]) \<and>
     (no_write_locked False (Acquire # map Write ws @ [Release]) \<longleftrightarrow> ws = [])"
proof -
  have "no_write_locked True (map Write ws @ [Release]) \<longleftrightarrow> ws = []" for ws
    by (cases ws) simp_all
  with prune_once_ok [of strftime w now cm] show ?thesis by auto
qed

text \<open>
  A sweep that reports one record writes between taking the lock and releasing it.
\<close>

theorem prune_once_write_under_lock:
  "prune_once str_int 5 9 [(app_log, [(''x'', \<lparr>count = Some 2, first_seen = Some 0\<rparr>)])] =
     Inr ([(app_log, [])],
          [Acquire, Write (dump_log_to_file app_log ''9'' ''x (occurred 2 times)''), Release]) \<and>
   \<not> no_write_locked False
       [Acquire, Write (dump_log_to_file app_log ''9'' ''x (occurred 2 times)''), Release]"
  by (simp add: prune_once_def collect_def marked_def report_def truthy_def str_int_def)

end
